theory Spec2Isabelle
  imports Main
begin

section \<open>The users collection and the handlers of convex/addUser.js\<close>

subsection \<open>Data\<close>

text \<open>
  Document identifiers are opaque values issued by the database; the model takes natural
  numbers. The source reads the identifier of a stored document as \<^verbatim>\<open>user._id\<close>; the
  field is called \<open>doc_id\<close> here, since an Isabelle name cannot start with an underscore.
\<close>

type_synonym Id = nat

text \<open>
  The identity claims that \<^verbatim>\<open>auth.getUserIdentity()\<close> reports. The handlers read the two
  fields \<^verbatim>\<open>tokenIdentifier\<close> and \<^verbatim>\<open>name\<close>; both are strings, so that the loose comparison
  \<^verbatim>\<open>user.name != identity.name\<close> of the source is plain string inequality.
\<close>

record identity =
  tokenIdentifier :: string
  name :: string

text \<open>A stored document of the \<^verbatim>\<open>users\<close> collection.\<close>

record user =
  doc_id :: Id
  name :: string
  tokenIdentifier :: string

text \<open>
  The errors a handler can end with: \<open>Error msg\<close> is the \<^verbatim>\<open>throw new Error(msg)\<close> of the
  source; the other two are raised by the database client.
\<close>

datatype error = Error string | NotUnique | NoSuchDocument

text \<open>The writes of the database client, as they are journalled.\<close>

datatype db_write = Patch Id string | Insert string string

text \<open>
  What a handler invocation can observe and change: the rows of the \<^verbatim>\<open>users\<close> collection
  in creation order, the journal of the writes performed so far, and the values printed by
  \<^verbatim>\<open>console.log\<close>.
\<close>

record state =
  users :: "user list"
  writes :: "db_write list"
  console :: "identity list"

text \<open>The authentication context: \<open>None\<close> when \<^verbatim>\<open>auth.getUserIdentity()\<close> yields null.\<close>

type_synonym auth = "identity option"

definition getUserIdentity :: "auth \<Rightarrow> identity option" where
  "getUserIdentity a = a"

subsection \<open>The database client\<close>

text \<open>
  Modelled from the spec: the database client \<^verbatim>\<open>db\<close> that \<^verbatim>\<open>./_generated/server\<close> hands to
  every handler is not among the sources. \<^verbatim>\<open>db.query("users").collect()\<close> returns all
  persisted User records, unfiltered and unpaginated.
\<close>

definition db_collect :: "state \<Rightarrow> user list" where
  "db_collect s = users s"

text \<open>
  Modelled from the spec: \<^verbatim>\<open>.unique()\<close> of the absent database client ends a lookup that
  expects a single record: it yields null when no row matches, the row when exactly one
  matches, and raises when several match.
\<close>

fun db_unique :: "user list \<Rightarrow> error + user option" where
  "db_unique [] = Inr None"
| "db_unique [u] = Inr (Some u)"
| "db_unique (u # v # rest) = Inl NotUnique"

text \<open>
  Modelled from the spec: \<^verbatim>\<open>db.patch(id, {name: n})\<close> of the absent database client
  overwrites the name of the document carrying the identifier and leaves every other field
  and document alone; it raises, writing nothing, when no document carries the identifier.
\<close>

definition db_patch :: "Id \<Rightarrow> string \<Rightarrow> state \<Rightarrow> (error + unit) \<times> state" where
  "db_patch i n s =
     (if i \<in> set (map doc_id (users s))
      then (Inr (),
            s\<lparr>users := map (\<lambda>d. if doc_id d = i then d\<lparr>name := n\<rparr> else d) (users s),
              writes := writes s @ [Patch i n]\<rparr>)
      else (Inl NoSuchDocument, s))"

text \<open>
  Modelled from the spec: the identifier that the absent database client gives to a new
  document is one that no stored document carries; the model takes the least number above
  all identifiers of the collection.
\<close>

definition fresh_id :: "user list \<Rightarrow> Id" where
  "fresh_id rows = foldr (\<lambda>d m. max (Suc (doc_id d)) m) rows 0"

text \<open>
  Modelled from the spec: \<^verbatim>\<open>db.insert("users", {name: n, tokenIdentifier: t})\<close> of the
  absent database client appends a new record with the two fields and returns the
  record's identifier.
\<close>

definition db_insert :: "string \<Rightarrow> string \<Rightarrow> state \<Rightarrow> Id \<times> state" where
  "db_insert n t s =
     (let i = fresh_id (users s)
      in (i, s\<lparr>users := users s @ [\<lparr>doc_id = i, name = n, tokenIdentifier = t\<rparr>],
                writes := writes s @ [Insert n t]\<rparr>))"

subsection \<open>The handlers\<close>

text \<open>
  Every handler takes the state and the authentication context and returns what it
  returns or throws, together with the state it leaves behind.
\<close>

definition me :: "state \<Rightarrow> auth \<Rightarrow> (error + identity) \<times> state" where
  "me s a =
     (case getUserIdentity a of
        None \<Rightarrow> (Inl (Error ''Unauthenticated call to mutation''), s)
      | Some identity \<Rightarrow> (Inr identity, s\<lparr>console := console s @ [identity]\<rparr>))"

definition list :: "state \<Rightarrow> auth \<Rightarrow> (error + user list) \<times> state" where
  "list s a = (Inr (db_collect s), s)"

definition put :: "state \<Rightarrow> auth \<Rightarrow> (error + Id) \<times> state" where
  "put s a =
     (case getUserIdentity a of
        None \<Rightarrow> (Inl (Error ''Called storeUser without authentication present''), s)
      | Some identity \<Rightarrow>
          (case db_unique
                  (filter (\<lambda>q. user.tokenIdentifier q = identity.tokenIdentifier identity)
                     (users s)) of
             Inl e \<Rightarrow> (Inl e, s)
           | Inr (Some user) \<Rightarrow>
               if user.name user \<noteq> identity.name identity
               then (case db_patch (doc_id user) (identity.name identity) s of
                       (Inl e, s') \<Rightarrow> (Inl e, s')
                     | (Inr _, s') \<Rightarrow> (Inr (doc_id user), s'))
               else (Inr (doc_id user), s)
           | Inr None \<Rightarrow>
               (case db_insert (identity.name identity) (identity.tokenIdentifier identity) s of
                  (i, s') \<Rightarrow> (Inr i, s'))))"

subsection \<open>Rows of an identity, invariants and call sequences\<close>

text \<open>
  The rows that the lookup of \<open>put\<close> selects for a token, and the rows it does not select.
\<close>

definition matching :: "string \<Rightarrow> state \<Rightarrow> user list" where
  "matching t s = filter (\<lambda>q. user.tokenIdentifier q = t) (users s)"

definition others :: "string \<Rightarrow> state \<Rightarrow> user list" where
  "others t s = filter (\<lambda>q. user.tokenIdentifier q \<noteq> t) (users s)"

text \<open>The invariant of the data model: at most one User row per distinct token.\<close>

definition unique_tokens :: "state \<Rightarrow> bool" where
  "unique_tokens s = distinct (map user.tokenIdentifier (users s))"

text \<open>The database never gives one identifier to two documents.\<close>

definition unique_ids :: "state \<Rightarrow> bool" where
  "unique_ids s = distinct (map doc_id (users s))"

text \<open>
  Handler invocations executed one after the other, each running to its end before the
  next starts; \<open>call\<close> keeps the state an invocation leaves and drops what it returns.
\<close>

datatype handler = Me | List | Put

fun call :: "state \<Rightarrow> handler \<times> auth \<Rightarrow> state" where
  "call s (Me, a) = snd (me s a)"
| "call s (List, a) = snd (list s a)"
| "call s (Put, a) = snd (put s a)"

definition run :: "state \<Rightarrow> (handler \<times> auth) list \<Rightarrow> state" where
  "run s cs = foldl call s cs"

text \<open>One \<open>put\<close> per identity of a list, in order, collecting what each call returns.\<close>

fun put_all :: "state \<Rightarrow> identity list \<Rightarrow> (error + Id) list \<times> state" where
  "put_all s [] = ([], s)"
| "put_all s (i # is) =
     (case put s (Some i) of (r, s') \<Rightarrow>
        (case put_all s' is of (rs, s'') \<Rightarrow> (r # rs, s'')))"

subsection \<open>Concrete identities and states\<close>

definition alice :: identity where
  "alice = \<lparr>identity.tokenIdentifier = ''abc'', name = ''Alice''\<rparr>"

definition alicia :: identity where
  "alicia = \<lparr>identity.tokenIdentifier = ''abc'', name = ''Alicia''\<rparr>"

definition bob :: identity where
  "bob = \<lparr>identity.tokenIdentifier = ''xyz'', name = ''Bob''\<rparr>"

definition row_alice :: user where
  "row_alice = \<lparr>doc_id = 0, name = ''Alice'', tokenIdentifier = ''abc''\<rparr>"

definition row_bob :: user where
  "row_bob = \<lparr>doc_id = 1, name = ''Bob'', tokenIdentifier = ''xyz''\<rparr>"

definition s_empty :: state where
  "s_empty = \<lparr>users = [], writes = [], console = []\<rparr>"

definition s_alice :: state where
  "s_alice = \<lparr>users = [row_alice], writes = [Insert ''Alice'' ''abc''], console = []\<rparr>"

definition s_two :: state where
  "s_two = \<lparr>users = [row_alice, row_bob],
            writes = [Insert ''Alice'' ''abc'', Insert ''Bob'' ''xyz''], console = []\<rparr>"

text \<open>A state that breaks the invariant: two rows carry the token of \<open>alice\<close>.\<close>

definition s_dup :: state where
  "s_dup = \<lparr>users = [row_alice, \<lparr>doc_id = 1, name = ''Al'', tokenIdentifier = ''abc''\<rparr>],
            writes = [], console = []\<rparr>"

lemmas example_defs =
  alice_def alicia_def bob_def row_alice_def row_bob_def s_empty_def s_alice_def s_two_def
  s_dup_def

lemmas handler_defs =
  put_def me_def list_def getUserIdentity_def db_collect_def db_patch_def db_insert_def
  fresh_id_def matching_def others_def unique_tokens_def unique_ids_def run_def

section \<open>Properties of the handlers\<close>

subsection \<open>The four ways a call of put can go\<close>

lemma put_new:
  assumes "matching (identity.tokenIdentifier i) s = []"
  shows "put s (Some i) =
    (Inr (fresh_id (users s)),
     s\<lparr>users := users s @ [\<lparr>doc_id = fresh_id (users s), name = identity.name i,
                             tokenIdentifier = identity.tokenIdentifier i\<rparr>],
       writes := writes s @ [Insert (identity.name i) (identity.tokenIdentifier i)]\<rparr>)"
  using assms by (simp add: put_def getUserIdentity_def matching_def db_insert_def Let_def)

lemma put_same:
  assumes "matching (identity.tokenIdentifier i) s = [u]" and "user.name u = identity.name i"
  shows "put s (Some i) = (Inr (doc_id u), s)"
  using assms by (simp add: put_def getUserIdentity_def matching_def)

lemma matching_mem: "matching t s = u # rest \<Longrightarrow> u \<in> set (users s)"
proof -
  assume "matching t s = u # rest"
  then have "u \<in> set (matching t s)" by simp
  then show ?thesis by (simp add: matching_def)
qed

lemma put_changed:
  assumes "matching (identity.tokenIdentifier i) s = [u]" and "user.name u \<noteq> identity.name i"
  shows "put s (Some i) =
    (Inr (doc_id u),
     s\<lparr>users := map (\<lambda>d. if doc_id d = doc_id u then d\<lparr>name := identity.name i\<rparr> else d) (users s),
       writes := writes s @ [Patch (doc_id u) (identity.name i)]\<rparr>)"
proof -
  have "u \<in> set (users s)" using assms(1) by (rule matching_mem)
  then have "doc_id u \<in> set (map doc_id (users s))" by simp
  then show ?thesis
    using assms by (simp add: put_def getUserIdentity_def matching_def db_patch_def)
qed

lemma put_many:
  assumes "matching (identity.tokenIdentifier i) s = u # v # rest"
  shows "put s (Some i) = (Inl NotUnique, s)"
  using assms by (simp add: put_def getUserIdentity_def matching_def)

lemma put_cases [case_names New Same Changed Many]:
  obtains
    (New) "matching (identity.tokenIdentifier i) s = []"
  | (Same) u where "matching (identity.tokenIdentifier i) s = [u]"
      "user.name u = identity.name i"
  | (Changed) u where "matching (identity.tokenIdentifier i) s = [u]"
      "user.name u \<noteq> identity.name i"
  | (Many) u v rest where "matching (identity.tokenIdentifier i) s = u # v # rest"
proof (cases "matching (identity.tokenIdentifier i) s")
  case Nil
  then show ?thesis by (rule New)
next
  case (Cons u us)
  show ?thesis
  proof (cases us)
    case Nil
    with Cons have m: "matching (identity.tokenIdentifier i) s = [u]" by simp
    show ?thesis
    proof (cases "user.name u = identity.name i")
      case True
      with m show ?thesis by (rule Same)
    next
      case False
      with m show ?thesis by (rule Changed)
    qed
  next
    case (Cons v rest)
    with \<open>matching (identity.tokenIdentifier i) s = u # us\<close> show ?thesis
      by (auto intro: Many)
  qed
qed

subsection \<open>What a write does to the rows of a token\<close>

lemma matching_patch:
  "matching t (s\<lparr>users := map (\<lambda>d. if doc_id d = k then d\<lparr>name := n\<rparr> else d) (users s),
                 writes := w\<rparr>)
   = map (\<lambda>d. if doc_id d = k then d\<lparr>name := n\<rparr> else d) (matching t s)"
  by (simp add: matching_def filter_map comp_def if_distrib cong: if_cong)

lemma matching_insert:
  "matching t (s\<lparr>users := users s @ [d], writes := w\<rparr>)
   = matching t s @ (if user.tokenIdentifier d = t then [d] else [])"
  by (simp add: matching_def)

lemma matching_users_cong: "users s' = users s \<Longrightarrow> matching t s' = matching t s"
  by (simp add: matching_def)

lemma matching_empty_iff:
  "matching t s = [] \<longleftrightarrow> t \<notin> set (map user.tokenIdentifier (users s))"
  by (auto simp: matching_def filter_empty_conv)

lemma map_token_patch:
  "map user.tokenIdentifier (map (\<lambda>d. if doc_id d = k then d\<lparr>name := n\<rparr> else d) rows)
   = map user.tokenIdentifier rows"
  by (induction rows) auto

lemma map_id_patch:
  "map doc_id (map (\<lambda>d. if doc_id d = k then d\<lparr>name := n\<rparr> else d) rows) = map doc_id rows"
  by (induction rows) auto

text \<open>Under the invariant the lookup of \<open>put\<close> never finds more than one row.\<close>

lemma unique_tokens_matching: "unique_tokens s \<Longrightarrow> length (matching t s) \<le> 1"
proof -
  have "distinct (map user.tokenIdentifier rows) \<Longrightarrow>
        length (filter (\<lambda>q. user.tokenIdentifier q = t) rows) \<le> 1" for rows
  proof (induction rows)
    case Nil
    then show ?case by simp
  next
    case (Cons d rows)
    show ?case
    proof (cases "user.tokenIdentifier d = t")
      case True
      with Cons.prems have "t \<notin> user.tokenIdentifier ` set rows" by simp
      then have "\<forall>q \<in> set rows. user.tokenIdentifier q \<noteq> t" by blast
      then have "filter (\<lambda>q. user.tokenIdentifier q = t) rows = []"
        by (simp add: filter_empty_conv)
      with True show ?thesis by simp
    next
      case False
      with Cons show ?thesis by simp
    qed
  qed
  then show "unique_tokens s \<Longrightarrow> length (matching t s) \<le> 1"
    by (simp add: unique_tokens_def matching_def)
qed

subsection \<open>Calls without an identity\<close>

text \<open>
  Claim C2. Whatever the state, a call of \<open>put\<close> by a caller with no authenticated
  identity raises an error and performs no write: the state after the failed call, write
  journal included, is the state before it.
\<close>

theorem put_unauthenticated:
  "put s None = (Inl (Error ''Called storeUser without authentication present''), s)"
  by (simp add: put_def getUserIdentity_def)

theorem put_unauthenticated_witness:
  "put s_two None = (Inl (Error ''Called storeUser without authentication present''), s_two)"
  by (rule put_unauthenticated)

text \<open>
  Claim C6. Whatever the state, a call of \<open>me\<close> by a caller with no authenticated identity
  raises the authentication error and has no side effect: the rows, the write journal and
  the console are as before.
\<close>

theorem me_unauthenticated:
  "me s None = (Inl (Error ''Unauthenticated call to mutation''), s)"
  by (simp add: me_def getUserIdentity_def)

theorem me_unauthenticated_witness:
  "me s_two None = (Inl (Error ''Unauthenticated call to mutation''), s_two)"
  by (rule me_unauthenticated)

subsection \<open>Listing\<close>

text \<open>
  Claim C7. Whatever the state, a call of \<open>list\<close> with no authenticated identity raises
  no error and returns all stored User rows, unfiltered and unpaginated.
\<close>

theorem list_unauthenticated: "list s None = (Inr (users s), s)"
  by (simp add: list_def db_collect_def)

theorem list_unauthenticated_witness:
  "list s_two None = (Inr [row_alice, row_bob], s_two)"
  using list_unauthenticated [of s_two] by (simp add: s_two_def)

text \<open>
  Claim C9. What \<open>list\<close> returns depends on the users collection only, not on the
  authentication context: two invocations on the same state with different or absent
  identities return the same array.
\<close>

theorem list_ignores_auth: "list s a = list s b"
  by (simp add: list_def)

theorem list_ignores_auth_witness: "list s_two (Some alice) = list s_two None"
  by (rule list_ignores_auth)

subsection \<open>A lookup that finds several rows\<close>

text \<open>
  Claim C10. When more than one stored User row carries the token of the authenticated
  caller, \<open>put\<close> raises an error, the one of the failed \<^verbatim>\<open>unique()\<close> lookup, and performs no
  write: it neither patches nor inserts, and the state is as before.
\<close>

theorem put_not_unique:
  assumes "1 < length (matching (identity.tokenIdentifier i) s)"
  shows "put s (Some i) = (Inl NotUnique, s)"
proof (cases rule: put_cases [of i s])
  case New
  with assms show ?thesis by simp
next
  case (Same u)
  with assms show ?thesis by simp
next
  case (Changed u)
  with assms show ?thesis by simp
next
  case (Many u v rest)
  then show ?thesis by (rule put_many)
qed

theorem put_not_unique_witness:
  "1 < length (matching (identity.tokenIdentifier alice) s_dup) \<and>
   put s_dup (Some alice) = (Inl NotUnique, s_dup)"
proof -
  have h: "1 < length (matching (identity.tokenIdentifier alice) s_dup)"
    by (simp add: matching_def example_defs)
  from h put_not_unique [OF h] show ?thesis by (rule conjI)
qed

subsection \<open>Calling put twice\<close>

text \<open>
  Claim C1. When at most one stored User row carries the token of the authenticated
  identity, as is the case in every state that satisfies the invariant (lemma
  \<open>unique_tokens_matching\<close>), two calls of \<open>put\<close> in succession with the same token and
  the same name both succeed with the same identifier, the second call changes nothing,
  and exactly one stored row carries the token after both calls.
\<close>

theorem put_idempotent:
  assumes "length (matching (identity.tokenIdentifier i) s) \<le> 1"
  shows "\<exists>k s1. put s (Some i) = (Inr k, s1) \<and> put s1 (Some i) = (Inr k, s1) \<and>
           length (matching (identity.tokenIdentifier i) s1) = 1"
proof (cases rule: put_cases [of i s])
  case New
  let ?k = "fresh_id (users s)"
  let ?d = "\<lparr>doc_id = ?k, name = identity.name i, tokenIdentifier = identity.tokenIdentifier i\<rparr>"
  let ?s1 = "s\<lparr>users := users s @ [?d],
               writes := writes s @ [Insert (identity.name i) (identity.tokenIdentifier i)]\<rparr>"
  have first: "put s (Some i) = (Inr ?k, ?s1)" by (rule put_new [OF New])
  have m1: "matching (identity.tokenIdentifier i) ?s1 = [?d]"
    using New by (simp add: matching_insert)
  have "put ?s1 (Some i) = (Inr (doc_id ?d), ?s1)"
    by (rule put_same [OF m1]) simp
  with first m1 show ?thesis by simp
next
  case (Same u)
  then have "put s (Some i) = (Inr (doc_id u), s)" by (rule put_same)
  with Same(1) show ?thesis by simp
next
  case (Changed u)
  let ?f = "\<lambda>d. if doc_id d = doc_id u then d\<lparr>name := identity.name i\<rparr> else d"
  let ?s1 = "s\<lparr>users := map ?f (users s),
               writes := writes s @ [Patch (doc_id u) (identity.name i)]\<rparr>"
  have first: "put s (Some i) = (Inr (doc_id u), ?s1)" using Changed by (rule put_changed)
  have m1: "matching (identity.tokenIdentifier i) ?s1 = [u\<lparr>name := identity.name i\<rparr>]"
    using Changed(1) by (simp add: matching_patch)
  have "put ?s1 (Some i) = (Inr (doc_id (u\<lparr>name := identity.name i\<rparr>)), ?s1)"
    by (rule put_same [OF m1]) simp
  with first m1 show ?thesis by simp
next
  case (Many u v rest)
  with assms show ?thesis by simp
qed

theorem put_idempotent_witness:
  "length (matching (identity.tokenIdentifier alice) s_empty) \<le> 1 \<and>
   (\<exists>k s1. put s_empty (Some alice) = (Inr k, s1) \<and> put s1 (Some alice) = (Inr k, s1) \<and>
      length (matching (identity.tokenIdentifier alice) s1) = 1)"
proof -
  have h: "length (matching (identity.tokenIdentifier alice) s_empty) \<le> 1"
    by (simp add: matching_def example_defs)
  from h put_idempotent [OF h] show ?thesis by (rule conjI)
qed

subsection \<open>The invariant along sequences of calls\<close>

lemma put_unique_tokens:
  assumes "unique_tokens s"
  shows "unique_tokens (snd (put s a))"
proof (cases a)
  case None
  with assms show ?thesis by (simp add: put_def getUserIdentity_def)
next
  case (Some i)
  show ?thesis
  proof (cases rule: put_cases [of i s])
    case New
    then have "identity.tokenIdentifier i \<notin> set (map user.tokenIdentifier (users s))"
      using matching_empty_iff by blast
    with assms show ?thesis
      unfolding Some put_new [OF New] by (simp add: unique_tokens_def)
  next
    case (Same u)
    with assms show ?thesis unfolding Some by (simp add: put_same)
  next
    case (Changed u)
    with assms show ?thesis
      unfolding Some by (simp add: put_changed unique_tokens_def map_token_patch del: map_map)
  next
    case (Many u v rest)
    with assms show ?thesis unfolding Some by (simp add: put_many)
  qed
qed

lemma call_unique_tokens: "unique_tokens s \<Longrightarrow> unique_tokens (call s c)"
proof (cases c)
  case (Pair h a)
  assume inv: "unique_tokens s"
  show ?thesis
  proof (cases h)
    case Me
    with Pair inv show ?thesis
      by (simp add: me_def getUserIdentity_def unique_tokens_def split: option.splits)
  next
    case List
    with Pair inv show ?thesis by (simp add: list_def)
  next
    case Put
    with Pair inv show ?thesis by (simp add: put_unique_tokens)
  qed
qed

text \<open>
  Claim C4. The invariant "at most one User row per distinct token" is preserved by
  handler invocations executed one after the other: from a state that satisfies it, any
  sequence of calls of \<open>me\<close>, \<open>list\<close> and \<open>put\<close>, with any authentication contexts,
  leads to a state that satisfies it.
\<close>

theorem unique_tokens_invariant: "unique_tokens s \<Longrightarrow> unique_tokens (run s cs)"
  unfolding run_def by (induction cs arbitrary: s) (simp_all add: call_unique_tokens)

theorem unique_tokens_invariant_witness:
  "unique_tokens s_alice \<and>
   unique_tokens (run s_alice
     [(Put, Some alicia), (Me, Some bob), (List, None), (Put, Some bob), (Put, None)])"
proof -
  have h: "unique_tokens s_alice" by (simp add: unique_tokens_def example_defs)
  from h unique_tokens_invariant [OF h] show ?thesis by (rule conjI)
qed

subsection \<open>A changed name\<close>

lemma put_matching_ids:
  assumes "matching t s \<noteq> []"
  shows "map doc_id (matching t (snd (put s a))) = map doc_id (matching t s)"
proof (cases a)
  case None
  then show ?thesis by (simp add: put_def getUserIdentity_def)
next
  case (Some j)
  show ?thesis
  proof (cases rule: put_cases [of j s])
    case New
    have "identity.tokenIdentifier j \<noteq> t"
    proof
      assume "identity.tokenIdentifier j = t"
      with New have "matching t s = []" by simp
      with assms show False by simp
    qed
    then show ?thesis unfolding Some put_new [OF New] by (simp add: matching_insert)
  next
    case (Same u)
    then show ?thesis unfolding Some by (simp add: put_same)
  next
    case (Changed u)
    then show ?thesis
      unfolding Some by (simp add: put_changed matching_patch map_id_patch del: map_map)
  next
    case (Many u v rest)
    then show ?thesis unfolding Some by (simp add: put_many)
  qed
qed

lemma call_matching_ids:
  assumes "matching t s \<noteq> []"
  shows "map doc_id (matching t (call s c)) = map doc_id (matching t s)"
proof (cases c)
  case (Pair h a)
  show ?thesis
  proof (cases h)
    case Me
    have "users (snd (me s a)) = users s"
      by (simp add: me_def getUserIdentity_def split: option.splits)
    then have "matching t (snd (me s a)) = matching t s" by (rule matching_users_cong)
    then show ?thesis using Pair Me by simp
  next
    case List
    with Pair show ?thesis by (simp add: list_def)
  next
    case Put
    with Pair assms show ?thesis by (simp add: put_matching_ids)
  qed
qed

text \<open>
  Once a token has rows, no later call changes which identifiers they carry: rows are
  never removed, and a new row for the token is inserted only when it has none.
\<close>

lemma run_matching_ids:
  "matching t s \<noteq> [] \<Longrightarrow> map doc_id (matching t (run s cs)) = map doc_id (matching t s)"
proof (induction cs arbitrary: s)
  case Nil
  then show ?case by (simp add: run_def)
next
  case (Cons c cs)
  have step: "map doc_id (matching t (call s c)) = map doc_id (matching t s)"
    using Cons.prems by (rule call_matching_ids)
  have "matching t (call s c) \<noteq> []"
  proof
    assume "matching t (call s c) = []"
    with step have "map doc_id (matching t s) = []" by simp
    then have "matching t s = []" by (simp only: map_is_Nil_conv)
    with Cons.prems show False by simp
  qed
  then have "map doc_id (matching t (run (call s c) cs)) = map doc_id (matching t (call s c))"
    by (rule Cons.IH)
  with step show ?case by (simp add: run_def)
qed

lemma put_creates:
  assumes "matching (identity.tokenIdentifier i0) s0 = []"
  shows "\<exists>k s1. put s0 (Some i0) = (Inr k, s1) \<and>
           map doc_id (matching (identity.tokenIdentifier i0) s1) = [k]"
  using assms by (simp add: put_new matching_insert)

text \<open>
  Claim C3. In a state where exactly one User row carries the caller's token, a call of
  \<open>put\<close> with that token and a name that differs from the row's name succeeds, sets the
  row's name to the new value, creates no second row for the token and leaves the number
  of rows unchanged. It returns the row's identifier, which is what the call that created
  the row returned: whenever the state was reached from a call of \<open>put\<close> with the same
  token on a state without a row for it, followed by any sequence of calls, that creating
  call returned the same identifier.
\<close>

theorem put_changed_name:
  assumes "matching (identity.tokenIdentifier i) s = [u]"
    and "user.name u \<noteq> identity.name i"
  shows "(\<exists>s'. put s (Some i) = (Inr (doc_id u), s') \<and>
            length (users s') = length (users s) \<and>
            matching (identity.tokenIdentifier i) s' = [u\<lparr>name := identity.name i\<rparr>]) \<and>
         (\<forall>s0 i0 cs. identity.tokenIdentifier i0 = identity.tokenIdentifier i \<and>
            matching (identity.tokenIdentifier i) s0 = [] \<and>
            run (snd (put s0 (Some i0))) cs = s \<longrightarrow>
            fst (put s0 (Some i0)) = Inr (doc_id u))"
proof (intro conjI allI impI)
  show "\<exists>s'. put s (Some i) = (Inr (doc_id u), s') \<and>
            length (users s') = length (users s) \<and>
            matching (identity.tokenIdentifier i) s' = [u\<lparr>name := identity.name i\<rparr>]"
    using assms by (simp add: put_changed matching_patch)
next
  fix s0 i0 cs
  assume h: "identity.tokenIdentifier i0 = identity.tokenIdentifier i \<and>
            matching (identity.tokenIdentifier i) s0 = [] \<and>
            run (snd (put s0 (Some i0))) cs = s"
  then have "matching (identity.tokenIdentifier i0) s0 = []" by simp
  from put_creates [OF this] obtain k s1 where first: "put s0 (Some i0) = (Inr k, s1)"
    and m1: "map doc_id (matching (identity.tokenIdentifier i0) s1) = [k]"
    by (elim exE conjE)
  from m1 have "matching (identity.tokenIdentifier i0) s1 \<noteq> []" by auto
  then have "map doc_id (matching (identity.tokenIdentifier i0) (run s1 cs)) =
      map doc_id (matching (identity.tokenIdentifier i0) s1)"
    by (rule run_matching_ids)
  with m1 have m: "map doc_id (matching (identity.tokenIdentifier i0) (run s1 cs)) = [k]"
    by (simp only:)
  have "snd (put s0 (Some i0)) = s1" by (simp only: first snd_conv)
  with h have r: "run s1 cs = s" by (simp only:)
  from h have t: "identity.tokenIdentifier i0 = identity.tokenIdentifier i" by (rule conjunct1)
  from m have "map doc_id [u] = [k]" by (simp only: r t assms(1))
  then have "doc_id u = k" by simp
  then show "fst (put s0 (Some i0)) = Inr (doc_id u)" by (simp only: first fst_conv)
qed

theorem put_changed_name_witness:
  "matching (identity.tokenIdentifier alicia) s_alice = [row_alice] \<and>
   user.name row_alice \<noteq> identity.name alicia \<and>
   identity.tokenIdentifier alice = identity.tokenIdentifier alicia \<and>
   matching (identity.tokenIdentifier alicia) s_empty = [] \<and>
   run (snd (put s_empty (Some alice))) [(Me, None), (List, Some bob), (Put, Some alice)] = s_alice \<and>
   (\<exists>s'. put s_alice (Some alicia) = (Inr (doc_id row_alice), s') \<and>
      length (users s') = length (users s_alice) \<and>
      matching (identity.tokenIdentifier alicia) s' = [row_alice\<lparr>name := identity.name alicia\<rparr>]) \<and>
   fst (put s_empty (Some alice)) = Inr (doc_id row_alice)"
proof -
  have h1: "matching (identity.tokenIdentifier alicia) s_alice = [row_alice]"
    by (simp add: matching_def example_defs)
  have h2: "user.name row_alice \<noteq> identity.name alicia"
    by (simp add: example_defs)
  have h3: "identity.tokenIdentifier alice = identity.tokenIdentifier alicia \<and>
    matching (identity.tokenIdentifier alicia) s_empty = [] \<and>
    run (snd (put s_empty (Some alice))) [(Me, None), (List, Some bob), (Put, Some alice)] = s_alice"
    by (simp add: handler_defs example_defs)
  from put_changed_name [OF h1 h2] h3
  have "fst (put s_empty (Some alice)) = Inr (doc_id row_alice)" by blast
  with put_changed_name [OF h1 h2] h1 h2 h3 show ?thesis by blast
qed

subsection \<open>Listing after first contacts\<close>

lemma put_all_fresh:
  assumes "distinct (map identity.tokenIdentifier is)"
    and "set (map identity.tokenIdentifier is) \<inter> set (map user.tokenIdentifier (users s)) = {}"
    and "put_all s is = (rs, s')"
  shows "(\<exists>ks. rs = map Inr ks) \<and>
         map user.tokenIdentifier (users s') =
           map user.tokenIdentifier (users s) @ map identity.tokenIdentifier is"
  using assms
proof (induction "is" arbitrary: s rs s')
  case Nil
  then show ?case by simp
next
  case (Cons i "is")
  let ?t = "identity.tokenIdentifier i"
  let ?k = "fresh_id (users s)"
  let ?s1 = "s\<lparr>users := users s @ [\<lparr>doc_id = ?k, name = identity.name i, tokenIdentifier = ?t\<rparr>],
               writes := writes s @ [Insert (identity.name i) ?t]\<rparr>"
  from Cons.prems(2) have "?t \<notin> set (map user.tokenIdentifier (users s))" by auto
  then have new: "matching ?t s = []" using matching_empty_iff by blast
  have first: "put s (Some i) = (Inr ?k, ?s1)" by (rule put_new [OF new])
  obtain rs1 where rest: "put_all ?s1 is = (rs1, s')" and rs: "rs = Inr ?k # rs1"
    using Cons.prems(3) first by (auto split: prod.splits)
  have d: "distinct (map identity.tokenIdentifier is)" using Cons.prems(1) by simp
  have disj: "set (map identity.tokenIdentifier is) \<inter>
      set (map user.tokenIdentifier (users ?s1)) = {}"
    using Cons.prems(1,2) by auto
  from Cons.IH [OF d disj rest] obtain ks where ks: "rs1 = map Inr ks"
    and toks: "map user.tokenIdentifier (users s') =
      map user.tokenIdentifier (users ?s1) @ map identity.tokenIdentifier is"
    by (elim exE conjE)
  from rs ks have "rs = map Inr (?k # ks)" by simp
  then have "\<exists>ks. rs = map Inr ks" by (rule exI)
  with toks show ?case by simp
qed

text \<open>
  Claim C5. For every N: N calls of \<open>put\<close> with N pairwise distinct tokens, starting from an
  empty users collection, all succeed, and a call of \<open>list\<close> after them, with any
  authentication context, returns exactly N rows.
\<close>

theorem list_after_distinct_puts:
  assumes "users s = []"
    and "distinct (map identity.tokenIdentifier is)"
    and "put_all s is = (rs, s')"
  shows "(\<exists>ks. rs = map Inr ks) \<and>
         (\<exists>rows. fst (list s' a) = Inr rows \<and> length rows = length is)"
proof -
  have "set (map identity.tokenIdentifier is) \<inter> set (map user.tokenIdentifier (users s)) = {}"
    using assms(1) by simp
  from put_all_fresh [OF assms(2) this assms(3)]
  have ok: "\<exists>ks. rs = map Inr ks"
    and toks: "map user.tokenIdentifier (users s') =
      map user.tokenIdentifier (users s) @ map identity.tokenIdentifier is"
    by simp_all
  from toks have "length (map user.tokenIdentifier (users s')) = length is"
    using assms(1) by simp
  then have "length (users s') = length is" by simp
  with ok show ?thesis by (simp add: list_def db_collect_def)
qed

theorem list_after_distinct_puts_witness:
  "users s_empty = [] \<and>
   distinct (map identity.tokenIdentifier [alice, bob]) \<and>
   put_all s_empty [alice, bob] = ([Inr 0, Inr 1], s_two) \<and>
   (\<exists>ks. [Inr 0, Inr 1] = map (Inr :: Id \<Rightarrow> error + Id) ks) \<and>
   (\<exists>rows. fst (list s_two None) = Inr rows \<and> length rows = length [alice, bob])"
proof -
  have h1: "users s_empty = []" by (simp add: s_empty_def)
  have h2: "distinct (map identity.tokenIdentifier [alice, bob])"
    by (simp add: example_defs)
  have h3: "put_all s_empty [alice, bob] = ([Inr 0, Inr 1], s_two)"
    by (simp add: handler_defs example_defs)
  from h1 h2 h3 list_after_distinct_puts [OF h1 h2 h3, of None] show ?thesis by blast
qed

subsection \<open>The writes of one call\<close>

lemma others_patch:
  assumes "distinct (map doc_id rows)" and "u \<in> set rows" and "user.tokenIdentifier u = t"
  shows "filter (\<lambda>q. user.tokenIdentifier q \<noteq> t)
           (map (\<lambda>d. if doc_id d = doc_id u then d\<lparr>name := n\<rparr> else d) rows)
         = filter (\<lambda>q. user.tokenIdentifier q \<noteq> t) rows"
proof -
  have inj: "inj_on doc_id (set rows)" using assms(1) by (simp add: distinct_map)
  have "\<And>d. d \<in> set rows \<Longrightarrow> user.tokenIdentifier d \<noteq> t \<Longrightarrow> doc_id d \<noteq> doc_id u"
  proof
    fix d assume "d \<in> set rows" "user.tokenIdentifier d \<noteq> t" "doc_id d = doc_id u"
    with inj assms(2) have "d = u" by (simp add: inj_on_def)
    with assms(3) \<open>user.tokenIdentifier d \<noteq> t\<close> show False by simp
  qed
  then show ?thesis by (induction rows) auto
qed

text \<open>
  Claim C8. An authenticated call of \<open>put\<close> on a state where at most one stored row
  carries the caller's token performs at most one write: the journal grows by nothing (and
  then the state is unchanged), by a single patch, or by a single insert, never by both.
  Every row other than the one that carries the caller's token is unchanged, document
  identifiers being unique in the collection.
\<close>

theorem put_frame:
  assumes "length (matching (identity.tokenIdentifier i) s) \<le> 1"
    and "put s (Some i) = (r, s')"
  shows "(\<exists>ws. writes s' = writes s @ ws \<and>
            (ws = [] \<and> s' = s \<or> (\<exists>k. ws = [Patch k (identity.name i)]) \<or>
             ws = [Insert (identity.name i) (identity.tokenIdentifier i)])) \<and>
         (unique_ids s \<longrightarrow>
            others (identity.tokenIdentifier i) s' = others (identity.tokenIdentifier i) s)"
proof (cases rule: put_cases [of i s])
  case New
  from assms(2) show ?thesis unfolding put_new [OF New] by (auto simp: others_def)
next
  case (Same u)
  with assms(2) show ?thesis by (simp add: put_same)
next
  case (Changed u)
  have mem: "u \<in> set (users s)" using Changed(1) by (rule matching_mem)
  have "u \<in> set (matching (identity.tokenIdentifier i) s)" using Changed(1) by simp
  then have tok: "user.tokenIdentifier u = identity.tokenIdentifier i"
    by (simp add: matching_def)
  have frame: "others (identity.tokenIdentifier i) s' = others (identity.tokenIdentifier i) s"
    if "unique_ids s"
  proof -
    from that have "distinct (map doc_id (users s))" by (simp add: unique_ids_def)
    from others_patch [OF this mem tok] assms(2) show ?thesis
      unfolding put_changed [OF Changed] by (auto simp: others_def)
  qed
  from assms(2) have "writes s' = writes s @ [Patch (doc_id u) (identity.name i)]"
    unfolding put_changed [OF Changed] by auto
  with frame show ?thesis by blast
next
  case (Many u v rest)
  with assms(1) show ?thesis by simp
qed

theorem put_frame_witness:
  "length (matching (identity.tokenIdentifier alicia) s_two) \<le> 1 \<and>
   put s_two (Some alicia) =
     (Inr 0, s_two\<lparr>users := [row_alice\<lparr>name := ''Alicia''\<rparr>, row_bob],
                   writes := writes s_two @ [Patch 0 ''Alicia'']\<rparr>) \<and>
   unique_ids s_two \<and>
   others (identity.tokenIdentifier alicia)
     (s_two\<lparr>users := [row_alice\<lparr>name := ''Alicia''\<rparr>, row_bob],
            writes := writes s_two @ [Patch 0 ''Alicia'']\<rparr>) =
   others (identity.tokenIdentifier alicia) s_two"
proof -
  let ?s' = "s_two\<lparr>users := [row_alice\<lparr>name := ''Alicia''\<rparr>, row_bob],
                   writes := writes s_two @ [Patch 0 ''Alicia'']\<rparr>"
  have h1: "length (matching (identity.tokenIdentifier alicia) s_two) \<le> 1"
    by (simp add: matching_def example_defs)
  have h2: "put s_two (Some alicia) = (Inr 0, ?s')"
    by (simp add: handler_defs example_defs)
  have h3: "unique_ids s_two" by (simp add: unique_ids_def example_defs)
  from put_frame [OF h1 h2] h3
  have "others (identity.tokenIdentifier alicia) ?s' = others (identity.tokenIdentifier alicia) s_two"
    by blast
  with h1 h2 h3 show ?thesis by blast
qed

text \<open>The database's guarantee of unique identifiers is kept by every call.\<close>

lemma fresh_id_above: "d \<in> set rows \<Longrightarrow> doc_id d < fresh_id rows"
  by (induction rows) (auto simp: fresh_id_def)

lemma put_unique_ids:
  assumes "unique_ids s"
  shows "unique_ids (snd (put s a))"
proof (cases a)
  case None
  with assms show ?thesis by (simp add: put_def getUserIdentity_def)
next
  case (Some i)
  show ?thesis
  proof (cases rule: put_cases [of i s])
    case New
    have "fresh_id (users s) \<notin> doc_id ` set (users s)"
    proof
      assume "fresh_id (users s) \<in> doc_id ` set (users s)"
      then obtain d where "d \<in> set (users s)" and "fresh_id (users s) = doc_id d" by auto
      with fresh_id_above [of d "users s"] show False by simp
    qed
    with assms show ?thesis
      unfolding Some put_new [OF New] by (simp add: unique_ids_def)
  next
    case (Same u)
    with assms show ?thesis unfolding Some by (simp add: put_same)
  next
    case (Changed u)
    with assms show ?thesis
      unfolding Some by (simp add: put_changed unique_ids_def map_id_patch del: map_map)
  next
    case (Many u v rest)
    with assms show ?thesis unfolding Some by (simp add: put_many)
  qed
qed

lemma run_unique_ids: "unique_ids s \<Longrightarrow> unique_ids (run s cs)"
proof (induction cs arbitrary: s)
  case Nil
  then show ?case by (simp add: run_def)
next
  case (Cons c cs)
  obtain h a where c: "c = (h, a)" by (cases c)
  have "unique_ids (call s c)"
  proof (cases h)
    case Me
    with c Cons.prems show ?thesis
      by (simp add: me_def getUserIdentity_def unique_ids_def split: option.splits)
  next
    case List
    with c Cons.prems show ?thesis by (simp add: list_def)
  next
    case Put
    with c Cons.prems show ?thesis by (simp add: put_unique_ids)
  qed
  then have "unique_ids (run (call s c) cs)" by (rule Cons.IH)
  then show ?case by (simp add: run_def)
qed

end
